theory Spec2Isabelle
  imports Main "HOL-Library.Sublist"
begin

section \<open>Strings as the source uses them\<close>

text \<open>
  A JavaScript string is modelled as a \<open>string\<close> (a list of 8-bit characters, read as the
  code units 0..255). The class \<open>\s\<close> of a regular expression contains, among these code
  units, tab, line feed, vertical tab, form feed, carriage return, space and the
  no-break space 0xA0.
\<close>

definition js_space :: "char \<Rightarrow> bool" where
  "js_space c = (of_char c \<in> {9, 10, 11, 12, 13, 32, 160 :: nat})"

text \<open>\<open>s.includes(pat)\<close>: \<open>pat\<close> occurs in \<open>s\<close> as a contiguous substring.\<close>

fun str_includes :: "string \<Rightarrow> string \<Rightarrow> bool" where
  "str_includes [] pat = (pat = [])"
| "str_includes (c # cs) pat = (prefix pat (c # cs) \<or> str_includes cs pat)"

text \<open>
  \<open>s.match(/key([^\s]+)/g)\<close> for a literal \<open>key\<close>: the scan starts at the left; at each
  position the literal must be followed by at least one character that is not white
  space, the class takes as many as there are (greedy), the whole match is recorded and
  the scan resumes behind it; where nothing matches the scan moves one character on.
  With the \<open>g\<close> flag the capture group plays no role in the result.
\<close>

function regex_match_all :: "string \<Rightarrow> string \<Rightarrow> string list" where
  "regex_match_all key [] = []"
| "regex_match_all key (c # cs) =
     (if prefix key (c # cs) \<and> takeWhile (\<lambda>x. \<not> js_space x) (drop (length key) (c # cs)) \<noteq> []
      then (key @ takeWhile (\<lambda>x. \<not> js_space x) (drop (length key) (c # cs)))
             # regex_match_all key (dropWhile (\<lambda>x. \<not> js_space x) (drop (length key) (c # cs)))
      else regex_match_all key cs)"
  by pat_completeness auto
termination
proof (relation "measure (\<lambda>(key, s). length s)")
  fix key :: string and c :: char and cs :: string
  assume "prefix key (c # cs) \<and> takeWhile (\<lambda>x. \<not> js_space x) (drop (length key) (c # cs)) \<noteq> []"
  then have ne: "takeWhile (\<lambda>x. \<not> js_space x) (drop (length key) (c # cs)) \<noteq> []" by simp
  have "length (takeWhile (\<lambda>x. \<not> js_space x) (drop (length key) (c # cs)))
        + length (dropWhile (\<lambda>x. \<not> js_space x) (drop (length key) (c # cs)))
        = length (drop (length key) (c # cs))"
    by (metis length_append takeWhile_dropWhile_id)
  moreover have "0 < length (takeWhile (\<lambda>x. \<not> js_space x) (drop (length key) (c # cs)))"
    using ne by simp
  moreover have "length (drop (length key) (c # cs)) \<le> length (c # cs)" by simp
  ultimately have "length (dropWhile (\<lambda>x. \<not> js_space x) (drop (length key) (c # cs))) < length (c # cs)"
    by linarith
  then show "((key, dropWhile (\<lambda>x. \<not> js_space x) (drop (length key) (c # cs))), key, c # cs)
             \<in> measure (\<lambda>(key, s). length s)"
    by simp
qed auto

text \<open>\<open>s.match(re)\<close> with the \<open>g\<close> flag is \<open>null\<close> when nothing matches.\<close>

definition js_match :: "string \<Rightarrow> string \<Rightarrow> string list option" where
  "js_match s key = (case regex_match_all key s of [] \<Rightarrow> None | m # ms \<Rightarrow> Some (m # ms))"

text \<open>\<open>x || []\<close> for an array or \<open>null\<close>.\<close>

definition or_empty :: "'a list option \<Rightarrow> 'a list" where
  "or_empty x = (case x of None \<Rightarrow> [] | Some ms \<Rightarrow> ms)"

text \<open>
  \<open>s.replace(pat, '')\<close> with a string pattern: the first occurrence of \<open>pat\<close> is removed,
  a string without one is returned as it is.
\<close>

fun replace_empty :: "string \<Rightarrow> string \<Rightarrow> string" where
  "replace_empty [] pat = []"
| "replace_empty (c # cs) pat =
     (if prefix pat (c # cs) then drop (length pat) (c # cs) else c # replace_empty cs pat)"

section \<open>Record parser\<close>

record parsed =
  ipv4 :: "string list"
  includes' :: "string list"

definition parseSpfRecord :: "string \<Rightarrow> parsed" where
  "parseSpfRecord recordStr =
     (let ipv4Matches = or_empty (js_match recordStr ''ip4:'');
          includeMatches = or_empty (js_match recordStr ''include:'')
      in \<lparr> ipv4 = map (\<lambda>ip. replace_empty ip ''ip4:'') ipv4Matches,
           includes' = map (\<lambda>inc. replace_empty inc ''include:'') includeMatches \<rparr>)"

section \<open>The DNS transport and the mutable state\<close>

text \<open>
  \<open>resolveTxt\<close> hands each TXT record over as an array of its character-string chunks;
  \<open>record.toString()\<close> is \<open>Array.prototype.toString\<close>, which joins the chunks with
  commas. A record of a single chunk is that chunk.
\<close>

type_synonym txt_record = "string list"

fun toString :: "txt_record \<Rightarrow> string" where
  "toString [] = []"
| "toString [x] = x"
| "toString (x # y # ys) = x @ '','' @ toString (y # ys)"

text \<open>
  The transport answers a domain with an error (its message) or with the list of TXT
  records.
\<close>

type_synonym dns = "string \<Rightarrow> string + txt_record list"

text \<open>
  \<open>Set\<close> objects are mutable and passed by reference, so they live in a store: a
  reference is a number, \<open>sets\<close> gives the members of the object behind each reference
  and \<open>next_ref\<close> is the first reference not yet handed out. \<open>queries\<close> records every
  call of \<open>resolveTxt\<close>, in order.
\<close>

record world =
  sets :: "nat \<Rightarrow> string set"
  next_ref :: nat
  queries :: "string list"

text \<open>\<open>visited.has(domain)\<close>\<close>

definition Set_has :: "world \<Rightarrow> nat \<Rightarrow> string \<Rightarrow> bool" where
  "Set_has w r x = (x \<in> sets w r)"

text \<open>\<open>visited.add(domain)\<close>: the object behind the reference changes.\<close>

definition Set_add :: "world \<Rightarrow> nat \<Rightarrow> string \<Rightarrow> world" where
  "Set_add w r x = w\<lparr>sets := (sets w)(r := insert x (sets w r))\<rparr>"

text \<open>\<open>new Set(visited)\<close>: a new object with the members of the old one.\<close>

definition new_Set :: "world \<Rightarrow> nat \<Rightarrow> nat \<times> world" where
  "new_Set w r =
     (next_ref w, w\<lparr>sets := (sets w)(next_ref w := sets w r), next_ref := Suc (next_ref w)\<rparr>)"


definition resolveTxt_called :: "world \<Rightarrow> string \<Rightarrow> world" where
  "resolveTxt_called w d = w\<lparr>queries := queries w @ [d]\<rparr>"

section \<open>Chain resolver\<close>

datatype SpfNode =
  SpfNode (domain: string) (ipRanges: "string list") (children: "SpfNode list")
          (error: "string option") (spfRecord: "string option")

text \<open>
  \<open>lookupSpfRecords\<close> with its two loops: \<open>records_loop\<close> is
  \<open>for (const record of records)\<close>, which stops at the first record holding the marker,
  and \<open>includes_loop\<close> is \<open>for (const includeDomain of includes)\<close>, which awaits each
  child before it starts the next and returns what was pushed to \<open>result.children\<close>.
  \<open>depth\<close> and \<open>maxDepth\<close> are integers.
\<close>

function lookupSpfRecords :: "dns \<Rightarrow> string \<Rightarrow> int \<Rightarrow> int \<Rightarrow> nat \<Rightarrow> world \<Rightarrow> SpfNode \<times> world"
  and records_loop :: "dns \<Rightarrow> string \<Rightarrow> txt_record list \<Rightarrow> int \<Rightarrow> int \<Rightarrow> nat \<Rightarrow> world \<Rightarrow> SpfNode \<times> world"
  and includes_loop :: "dns \<Rightarrow> string list \<Rightarrow> int \<Rightarrow> int \<Rightarrow> nat \<Rightarrow> world \<Rightarrow> SpfNode list \<times> world"
where
  "lookupSpfRecords dns domain' depth maxDepth visited w =
     (if depth > maxDepth \<or> Set_has w visited domain'
      then (SpfNode domain' [] []
              (Some (if depth > maxDepth then ''Max depth reached''
                     else ''Circular reference detected'')) None, w)
      else (case dns domain' of
              Inl message \<Rightarrow>
                (SpfNode domain' [] [] (Some message) None,
                 resolveTxt_called (Set_add w visited domain') domain')
            | Inr records \<Rightarrow>
                records_loop dns domain' records depth maxDepth visited
                  (resolveTxt_called (Set_add w visited domain') domain')))"
| "records_loop dns domain' [] depth maxDepth visited w = (SpfNode domain' [] [] None None, w)"
| "records_loop dns domain' (record # records) depth maxDepth visited w =
     (if str_includes (toString record) ''v=spf1''
      then (case includes_loop dns (includes' (parseSpfRecord (toString record)))
                   (depth + 1) maxDepth visited w of
              (cs, w') \<Rightarrow>
                (SpfNode domain' (ipv4 (parseSpfRecord (toString record))) cs None
                   (Some (toString record)), w'))
      else records_loop dns domain' records depth maxDepth visited w)"
| "includes_loop dns [] depth maxDepth visited w = ([], w)"
| "includes_loop dns (includeDomain # rest) depth maxDepth visited w =
     (case new_Set w visited of
        (copy, w1) \<Rightarrow>
          (case lookupSpfRecords dns includeDomain depth maxDepth copy w1 of
             (childResult, w2) \<Rightarrow>
               (case includes_loop dns rest depth maxDepth visited w2 of
                  (cs, w3) \<Rightarrow> (childResult # cs, w3))))"
  by pat_completeness auto
termination
  by (relation "measures
        [\<lambda>x. case x of
            Inl (dns, d, depth, maxDepth, visited, w) \<Rightarrow> 3 * nat (maxDepth + 1 - depth)
          | Inr (Inl (dns, d, records, depth, maxDepth, visited, w)) \<Rightarrow>
              3 * nat (maxDepth - depth) + 2
          | Inr (Inr (dns, incs, depth, maxDepth, visited, w)) \<Rightarrow>
              3 * nat (maxDepth + 1 - depth) + 1,
         \<lambda>x. case x of
            Inl (dns, d, depth, maxDepth, visited, w) \<Rightarrow> 0
          | Inr (Inl (dns, d, records, depth, maxDepth, visited, w)) \<Rightarrow> length records
          | Inr (Inr (dns, incs, depth, maxDepth, visited, w)) \<Rightarrow> length incs]")
     auto

section \<open>Range collector\<close>

record RangeEntry =
  entry_range :: string
  entry_domain :: string

text \<open>
  \<open>ranges.push(...)\<close> appends to the array that is threaded through the traversal;
  \<open>forEach\<close> visits the children in their stored order.
\<close>

fun collectAllIpRanges :: "SpfNode \<Rightarrow> RangeEntry list \<Rightarrow> RangeEntry list" where
  "collectAllIpRanges (SpfNode d ips cs e s) ranges =
     foldl (\<lambda>acc child. collectAllIpRanges child acc)
       (if length ips > 0
        then ranges @ map (\<lambda>r. \<lparr> entry_range = r, entry_domain = d \<rparr>) ips
        else ranges)
       cs"

text \<open>The call with one argument starts from the default \<open>ranges = []\<close>.\<close>

definition collect :: "SpfNode \<Rightarrow> RangeEntry list" where
  "collect tree = collectAllIpRanges tree []"

section \<open>IP matcher\<close>







section \<open>The resolver as the specification words it\<close>

text \<open>
  Section 4.2 of the specification describes the resolver on values: the visited set is a
  set of domains, nothing is mutated, and every include target is resolved at
  \<open>depth + 1\<close> with the visited set plus the current domain. The stateful
  \<open>lookupSpfRecords\<close> is compared with this function below.
\<close>

function spec_resolve :: "dns \<Rightarrow> string \<Rightarrow> int \<Rightarrow> int \<Rightarrow> string set \<Rightarrow> SpfNode" where
  "spec_resolve dns d depth maxDepth visited =
     (if depth > maxDepth then SpfNode d [] [] (Some ''Max depth reached'') None
      else if d \<in> visited then SpfNode d [] [] (Some ''Circular reference detected'') None
      else (case dns d of
              Inl message \<Rightarrow> SpfNode d [] [] (Some message) None
            | Inr records \<Rightarrow>
                (case find (\<lambda>r. str_includes (toString r) ''v=spf1'') records of
                   None \<Rightarrow> SpfNode d [] [] None None
                 | Some r \<Rightarrow>
                     SpfNode d (ipv4 (parseSpfRecord (toString r)))
                       (map (\<lambda>i. spec_resolve dns i (depth + 1) maxDepth (insert d visited))
                          (includes' (parseSpfRecord (toString r))))
                       None (Some (toString r)))))"
  by pat_completeness auto
termination
  by (relation "measure (\<lambda>(dns, d, depth, maxDepth, visited). nat (maxDepth + 1 - depth))") auto

section \<open>Trees\<close>


text \<open>All nodes of a tree, the root first.\<close>

fun nodes :: "SpfNode \<Rightarrow> SpfNode list" where
  "nodes (SpfNode d ips cs e s) = SpfNode d ips cs e s # concat (map nodes cs)"

text \<open>All paths from the root to a node, each as the list of its nodes.\<close>

fun paths :: "SpfNode \<Rightarrow> SpfNode list list" where
  "paths (SpfNode d ips cs e s) =
     [SpfNode d ips cs e s] # map ((#) (SpfNode d ips cs e s)) (concat (map paths cs))"

text \<open>
  A node that is cut off: it carries one of the two bound errors and nothing else.
\<close>

definition cut_off :: "SpfNode \<Rightarrow> bool" where
  "cut_off n =
     (ipRanges n = [] \<and> children n = [] \<and> spfRecord n = None \<and>
      (error n = Some ''Circular reference detected'' \<or> error n = Some ''Max depth reached''))"


text \<open>A node with an error has no ranges, no children and no record.\<close>

definition error_excludes_record :: "SpfNode \<Rightarrow> bool" where
  "error_excludes_record n =
     (error n \<noteq> None \<longrightarrow> ipRanges n = [] \<and> children n = [] \<and> spfRecord n = None)"

section \<open>Example inputs\<close>

text \<open>A store with one empty \<open>Set\<close> behind reference 0, and one that holds \<open>a.com\<close>.\<close>

definition world0 :: world where
  "world0 = \<lparr> sets = (\<lambda>_. {}), next_ref = 1, queries = [] \<rparr>"

definition world_a :: world where
  "world_a = \<lparr> sets = (\<lambda>_. {})(0 := {''a.com''}), next_ref = 1, queries = [] \<rparr>"

text \<open>Two sets: an empty one behind reference 0 and one behind reference 1.\<close>

definition world_two :: world where
  "world_two = \<lparr> sets = (\<lambda>_. {})(1 := {''x.com''}), next_ref = 2, queries = [] \<rparr>"

text \<open>\<open>a.com\<close> includes \<open>b.com\<close> and \<open>b.com\<close> includes \<open>a.com\<close>.\<close>

definition dns_cycle :: dns where
  "dns_cycle d =
     (if d = ''a.com'' then Inr [[''v=spf1 include:b.com -all'']]
      else if d = ''b.com'' then Inr [[''v=spf1 include:a.com -all'']]
      else Inl ''ENOTFOUND'')"

text \<open>The tree of that cycle, from the cut-off node up to the root.\<close>

definition cycle_cut :: SpfNode where
  "cycle_cut = SpfNode ''a.com'' [] [] (Some ''Circular reference detected'') None"

definition cycle_b :: SpfNode where
  "cycle_b = SpfNode ''b.com'' [] [cycle_cut] None (Some ''v=spf1 include:a.com -all'')"

definition cycle_a :: SpfNode where
  "cycle_a = SpfNode ''a.com'' [] [cycle_b] None (Some ''v=spf1 include:b.com -all'')"

text \<open>
  \<open>a.com\<close> publishes three TXT records, the second and the third with the marker; it
  includes \<open>b.com\<close>, a domain whose lookup fails, and \<open>c.com\<close>; \<open>b.com\<close> includes
  \<open>c.com\<close> as well; \<open>plain.com\<close> publishes no SPF record.
\<close>

definition dns_tree :: dns where
  "dns_tree d =
     (if d = ''a.com''
      then Inr [[''google-site-verification=abc''],
                [''v=spf1 ip4:10.0.0.0/8 include:b.com include:missing.com include:c.com -all''],
                [''v=spf1 ip4:9.9.9.9 -all'']]
      else if d = ''b.com'' then Inr [[''v=spf1 include:c.com -all'']]
      else if d = ''c.com'' then Inr [[''v=spf1 ip4:192.168.1.0/24 -all'']]
      else if d = ''plain.com'' then Inr [[''google-site-verification=abc'']]
      else Inl ''ENOTFOUND'')"


section \<open>The parser as the specification words it\<close>

text \<open>
  The tokens of a string: the maximal runs of characters that are not white space.
\<close>

function tokens :: "string \<Rightarrow> string list" where
  "tokens [] = []"
| "tokens (c # cs) =
     (if js_space c then tokens cs
      else takeWhile (\<lambda>x. \<not> js_space x) (c # cs) # tokens (dropWhile (\<lambda>x. \<not> js_space x) (c # cs)))"
  by pat_completeness auto
termination
  by (relation "measure length") (auto simp: length_dropWhile_le less_Suc_eq_le)

text \<open>
  The specification's reading: the tokens of the form \<open>key<value>\<close>, that is, the tokens
  that begin with \<open>key\<close> and go on; each gives its \<open>value\<close>.
\<close>

definition spec_token_values :: "string \<Rightarrow> string \<Rightarrow> string list" where
  "spec_token_values key s =
     map (drop (length key))
       (filter (\<lambda>t. prefix key t \<and> drop (length key) t \<noteq> []) (tokens s))"

text \<open>
  What one token gives in the source: the characters behind the first place in the
  token where \<open>key\<close> stands and something follows, wherever in the token that is.
\<close>

fun value_after :: "string \<Rightarrow> string \<Rightarrow> string list" where
  "value_after key [] = []"
| "value_after key (c # cs) =
     (if prefix key (c # cs) \<and> drop (length key) (c # cs) \<noteq> []
      then [drop (length key) (c # cs)]
      else value_after key cs)"

section \<open>The collector as the specification words it\<close>

text \<open>
  Section 4.3: depth first, a node's own ranges before its children's, the children in
  their stored order, one entry per range under the node's domain.
\<close>

fun spec_collect :: "SpfNode \<Rightarrow> RangeEntry list" where
  "spec_collect (SpfNode d ips cs e s) =
     map (\<lambda>r. \<lparr> entry_range = r, entry_domain = d \<rparr>) ips @ concat (map spec_collect cs)"

text \<open>The specification's two-level tree.\<close>

definition two_level :: SpfNode where
  "two_level =
     SpfNode ''root.com'' [''10.0.0.0/8'']
       [SpfNode ''include.com'' [''192.168.1.0/24''] [] None
          (Some ''v=spf1 ip4:192.168.1.0/24 -all'')]
       None (Some ''v=spf1 ip4:10.0.0.0/8 include:include.com -all'')"

section \<open>Facts about the resolver\<close>

declare lookupSpfRecords.simps [simp del]
declare spec_resolve.simps [simp del]

subsection \<open>The stateful resolver computes the specification's tree\<close>

text \<open>
  Every set that exists before a call keeps its members, but for the one passed in, which
  gains the domain when both guards pass; new references are taken from \<open>next_ref\<close>
  upwards. The tree is the one \<open>spec_resolve\<close> gives for the members of the set passed.
\<close>

lemma lookup_refines:
  "v < next_ref w \<Longrightarrow>
     (case lookupSpfRecords dns d depth m v w of
        (n, w') \<Rightarrow> n = spec_resolve dns d depth m (sets w v) \<and> next_ref w \<le> next_ref w' \<and>
          (\<forall>r<next_ref w. sets w' r =
             (if r = v \<and> \<not> (depth > m \<or> d \<in> sets w v) then insert d (sets w r) else sets w r)))"
  "v < next_ref w \<Longrightarrow>
     (case records_loop dns d recs depth m v w of
        (n, w') \<Rightarrow>
          n = (case find (\<lambda>r. str_includes (toString r) ''v=spf1'') recs of
                 None \<Rightarrow> SpfNode d [] [] None None
               | Some r \<Rightarrow>
                   SpfNode d (ipv4 (parseSpfRecord (toString r)))
                     (map (\<lambda>i. spec_resolve dns i (depth + 1) m (sets w v))
                        (includes' (parseSpfRecord (toString r))))
                     None (Some (toString r))) \<and>
          next_ref w \<le> next_ref w' \<and> (\<forall>r<next_ref w. sets w' r = sets w r))"
  "v < next_ref w \<Longrightarrow>
     (case includes_loop dns incs depth m v w of
        (cs, w') \<Rightarrow> cs = map (\<lambda>i. spec_resolve dns i depth m (sets w v)) incs \<and>
          next_ref w \<le> next_ref w' \<and> (\<forall>r<next_ref w. sets w' r = sets w r))"
proof (induction dns d depth m v w and dns d recs depth m v w and dns incs depth m v w
       rule: lookupSpfRecords_records_loop_includes_loop.induct)
  case (1 dns d depth m v w)
  show ?case
  proof (cases "m < depth \<or> Set_has w v d")
    case True
    then show ?thesis
      by (auto simp: lookupSpfRecords.simps spec_resolve.simps Set_has_def)
  next
    case False
    show ?thesis
    proof (cases "dns d")
      case (Inl msg)
      with False show ?thesis
        by (auto simp: lookupSpfRecords.simps spec_resolve.simps Set_has_def Set_add_def
                       resolveTxt_called_def)
    next
      case (Inr recs)
      let ?w2 = "resolveTxt_called (Set_add w v d) d"
      have v2: "v < next_ref ?w2"
        using "1.prems" by (simp add: Set_add_def resolveTxt_called_def)
      have s2: "sets ?w2 v = insert d (sets w v)"
        by (simp add: Set_add_def resolveTxt_called_def)
      from "1.IH"[OF False Inr v2] False Inr s2 show ?thesis
        by (auto simp: lookupSpfRecords.simps spec_resolve.simps[of dns d] Set_has_def
                       Set_add_def resolveTxt_called_def
                 split: prod.splits option.splits)
    qed
  qed
next
  case (2 dns d depth m v w)
  then show ?case by simp
next
  case (3 dns d r recs depth m v w)
  then show ?case by (auto split: prod.splits)
next
  case (4 dns depth m v w)
  then show ?case by simp
next
  case (5 dns i rest depth m v w)
  obtain c w1 where nw: "new_Set w v = (c, w1)"
    by (cases "new_Set w v")
  then have c: "c = next_ref w"
    and w1: "next_ref w1 = Suc (next_ref w)" "sets w1 = (sets w)(next_ref w := sets w v)"
    by (auto simp: new_Set_def)
  obtain n w2 where lk: "lookupSpfRecords dns i depth m c w1 = (n, w2)"
    by (cases "lookupSpfRecords dns i depth m c w1")
  obtain cs w3 where il: "includes_loop dns rest depth m v w2 = (cs, w3)"
    by (cases "includes_loop dns rest depth m v w2")
  have "c < next_ref w1"
    using c w1 by simp
  from "5.IH"(1)[OF nw[symmetric] this] lk
  have n: "n = spec_resolve dns i depth m (sets w1 c)"
    and nx: "next_ref w1 \<le> next_ref w2"
    and fr: "\<forall>r<next_ref w1. sets w2 r =
               (if r = c \<and> \<not> (depth > m \<or> i \<in> sets w1 c) then insert i (sets w1 r)
                else sets w1 r)"
    by auto
  have v2: "v < next_ref w2"
    using "5.prems" nx w1 by simp
  have keep: "\<forall>r<next_ref w. sets w2 r = sets w r"
    using fr c w1 by auto
  from "5.IH"(2)[OF nw[symmetric] lk[symmetric] v2] il
  have cs: "cs = map (\<lambda>i. spec_resolve dns i depth m (sets w2 v)) rest"
    and nx3: "next_ref w2 \<le> next_ref w3"
    and fr3: "\<forall>r<next_ref w2. sets w3 r = sets w2 r"
    by auto
  have "sets w2 v = sets w v"
    using keep "5.prems" by simp
  moreover have "sets w1 c = sets w v"
    using c w1 by simp
  ultimately show ?case
    using nw lk il n cs nx nx3 fr3 keep w1 by auto
qed

lemma lookup_tree:
  "v < next_ref w \<Longrightarrow>
     fst (lookupSpfRecords dns d depth m v w) = spec_resolve dns d depth m (sets w v)"
  using lookup_refines(1)[of v w dns d depth m] by (auto split: prod.splits)

subsection \<open>Properties of the specification's tree\<close>




lemma paths_nonempty: "p \<in> set (paths t) \<Longrightarrow> p \<noteq> []"
  by (cases t) auto

lemma spec_paths:
  "p \<in> set (paths (spec_resolve dns d depth m vis)) \<Longrightarrow>
     distinct (map domain (butlast p)) \<and> set (map domain (butlast p)) \<inter> vis = {} \<and>
     (domain (last p) \<in> vis \<union> set (map domain (butlast p)) \<longrightarrow> cut_off (last p))"
proof (induction dns d depth m vis arbitrary: p rule: spec_resolve.induct)
  case (1 dns d depth m vis)
  show ?case
  proof (cases "depth > m \<or> d \<in> vis")
    case True
    then have "spec_resolve dns d depth m vis = SpfNode d [] [] (Some ''Max depth reached'') None
             \<or> spec_resolve dns d depth m vis = SpfNode d [] [] (Some ''Circular reference detected'') None"
      by (auto simp: spec_resolve.simps)
    then show ?thesis using "1.prems" by (auto simp: cut_off_def)
  next
    case False
    show ?thesis
    proof (cases "dns d")
      case (Inl a)
      then have "spec_resolve dns d depth m vis = SpfNode d [] [] (Some a) None"
        using False by (auto simp: spec_resolve.simps)
      then show ?thesis using False "1.prems" by auto
    next
      case (Inr recs)
      show ?thesis
      proof (cases "find (\<lambda>r. str_includes (toString r) ''v=spf1'') recs")
        case None
        then have "spec_resolve dns d depth m vis = SpfNode d [] [] None None"
          using False Inr by (auto simp: spec_resolve.simps)
        then show ?thesis using False "1.prems" by auto
      next
        case (Some r)
        let ?n = "spec_resolve dns d depth m vis"
        have dn: "domain ?n = d" using False Inr Some by (simp add: spec_resolve.simps[of dns d])
        have "?n = SpfNode d (ipv4 (parseSpfRecord (toString r)))
                       (map (\<lambda>i. spec_resolve dns i (depth + 1) m (insert d vis))
                          (includes' (parseSpfRecord (toString r))))
                       None (Some (toString r))"
          using False Inr Some by (simp add: spec_resolve.simps[of dns d])
        with "1.prems"
        consider "p = [?n]"
          | i q where "i \<in> set (includes' (parseSpfRecord (toString r)))"
              "q \<in> set (paths (spec_resolve dns i (depth + 1) m (insert d vis)))" "p = ?n # q"
          by auto
        then show ?thesis
        proof cases
          case 1
          then show ?thesis using dn False by simp
        next
          case 2
          have qne: "q \<noteq> []" using 2(2) by (rule paths_nonempty)
          from "1.IH"[OF _ _ Inr Some 2(1) 2(2)] False
          have ih: "distinct (map domain (butlast q))"
            "set (map domain (butlast q)) \<inter> insert d vis = {}"
            "domain (last q) \<in> insert d vis \<union> set (map domain (butlast q)) \<longrightarrow> cut_off (last q)"
            by auto
          show ?thesis using ih qne 2(3) dn False by auto
        qed
      qed
    qed
  qed
qed

subsection \<open>Errors and records exclude each other\<close>

lemma nodes_error_free_of_record:
  "\<forall>n\<in>set (nodes (fst (lookupSpfRecords dns d depth m v w))). error_excludes_record n"
  "\<forall>n\<in>set (nodes (fst (records_loop dns d recs depth m v w))). error_excludes_record n"
  "\<forall>c\<in>set (fst (includes_loop dns incs depth m v w)). \<forall>n\<in>set (nodes c). error_excludes_record n"
proof (induction dns d depth m v w and dns d recs depth m v w and dns incs depth m v w
       rule: lookupSpfRecords_records_loop_includes_loop.induct)
  case (1 dns d depth m v w)
  show ?case
  proof (cases "m < depth \<or> Set_has w v d")
    case True
    then show ?thesis by (auto simp: lookupSpfRecords.simps error_excludes_record_def)
  next
    case False
    show ?thesis
    proof (cases "dns d")
      case (Inl msg)
      with False show ?thesis by (auto simp: lookupSpfRecords.simps error_excludes_record_def)
    next
      case (Inr recs)
      with False "1.IH"[OF False Inr] show ?thesis by (simp add: lookupSpfRecords.simps)
    qed
  qed
next
  case (2 dns d depth m v w)
  then show ?case by (simp add: error_excludes_record_def)
next
  case (3 dns d r recs depth m v w)
  then show ?case by (auto simp: error_excludes_record_def split: prod.splits)
next
  case (4 dns depth m v w)
  then show ?case by simp
next
  case (5 dns i rest depth m v w)
  then show ?case by (auto split: prod.splits)
qed

subsection \<open>The loop over the records\<close>






subsection \<open>The parser, token by token\<close>

lemma or_empty_match: "or_empty (js_match s key) = regex_match_all key s"
  by (simp add: or_empty_def js_match_def split: list.splits)

lemma replace_empty_prefix: "replace_empty (key @ u) key = u"
proof (cases "key @ u")
  case Nil
  then show ?thesis by simp
next
  case (Cons a list)
  have "prefix key (key @ u)" by simp
  then have "prefix key (a # list)" by (simp only: Cons)
  then have "replace_empty (a # list) key = drop (length key) (a # list)" by simp
  also have "\<dots> = drop (length key) (key @ u)" by (simp only: Cons)
  also have "\<dots> = u" by simp
  finally show ?thesis by (simp only: Cons)
qed

lemma drop_le_append: "n \<le> length xs \<Longrightarrow> drop n (xs @ ys) = drop n xs @ ys"
  by simp

lemma prefix_token:
  assumes key: "\<forall>c\<in>set key. \<not> js_space c"
    and rest: "rest = [] \<or> js_space (hd rest)"
  shows "prefix key (t @ rest) \<longleftrightarrow> prefix key t"
proof
  assume "prefix key (t @ rest)"
  then have "prefix key t \<or> (\<exists>us. key = t @ us \<and> prefix us rest)"
    by (simp add: prefix_append)
  then show "prefix key t"
  proof
    assume "prefix key t"
    then show ?thesis .
  next
    assume "\<exists>us. key = t @ us \<and> prefix us rest"
    then obtain us where us: "key = t @ us" "prefix us rest" by blast
    show ?thesis
    proof (cases "us = []")
      case True
      then show ?thesis using us by simp
    next
      case False
      then obtain x xs where x: "us = x # xs" by (cases us) auto
      with us(2) obtain ys where "rest = x # ys" by (cases rest) auto
      then have "js_space x" using rest by simp
      moreover have "x \<in> set key" using us(1) x by simp
      ultimately show ?thesis using key by blast
    qed
  qed
next
  assume "prefix key t"
  then show "prefix key (t @ rest)" by (rule prefix_prefix)
qed

lemma takeWhile_token:
  assumes "\<forall>c\<in>set u. \<not> js_space c" and "rest = [] \<or> js_space (hd rest)"
  shows "takeWhile (\<lambda>x. \<not> js_space x) (u @ rest) = u"
    and "dropWhile (\<lambda>x. \<not> js_space x) (u @ rest) = rest"
proof -
  have t: "takeWhile (\<lambda>x. \<not> js_space x) rest = []" and d: "dropWhile (\<lambda>x. \<not> js_space x) rest = rest"
    using assms(2) by (cases rest; simp)+
  show "takeWhile (\<lambda>x. \<not> js_space x) (u @ rest) = u"
    using assms(1) t by (simp add: takeWhile_append2)
  show "dropWhile (\<lambda>x. \<not> js_space x) (u @ rest) = rest"
    using assms(1) d by (simp add: dropWhile_append2)
qed

lemma match_token:
  assumes key: "\<forall>c\<in>set key. \<not> js_space c"
    and rest: "rest = [] \<or> js_space (hd rest)"
    and t: "\<forall>c\<in>set t. \<not> js_space c"
  shows "map (\<lambda>m. replace_empty m key) (regex_match_all key (t @ rest))
           = value_after key t @ map (\<lambda>m. replace_empty m key) (regex_match_all key rest)"
  using t
proof (induction t)
  case Nil
  then show ?case by simp
next
  case (Cons c t)
  have pre: "prefix key ((c # t) @ rest) \<longleftrightarrow> prefix key (c # t)"
    using key rest by (rule prefix_token)
  show ?case
  proof (cases "prefix key (c # t) \<and> drop (length key) (c # t) \<noteq> []")
    case True
    then have len: "length key \<le> length (c # t)" by (auto dest: prefix_length_le)
    have dr: "drop (length key) ((c # t) @ rest) = drop (length key) (c # t) @ rest"
      using len by (rule drop_le_append)
    have u: "\<forall>x\<in>set (drop (length key) (c # t)). \<not> js_space x"
    proof
      fix x
      assume "x \<in> set (drop (length key) (c # t))"
      then have "x \<in> set (c # t)" by (rule in_set_dropD)
      with Cons.prems show "\<not> js_space x" by blast
    qed
    have whole: "key @ drop (length key) (c # t) = c # t"
      using True by (metis append_take_drop_id prefix_def append_eq_conv_conj)
    have "regex_match_all key ((c # t) @ rest)
          = (key @ drop (length key) (c # t)) # regex_match_all key rest"
      using True pre dr takeWhile_token [OF u rest] by simp
    then show ?thesis
      using True by (simp add: replace_empty_prefix del: regex_match_all.simps)
  next
    case False
    have neg: "\<not> (prefix key (c # t @ rest) \<and>
             takeWhile (\<lambda>x. \<not> js_space x) (drop (length key) (c # t @ rest)) \<noteq> [])"
    proof
      assume a: "prefix key (c # t @ rest) \<and>
             takeWhile (\<lambda>x. \<not> js_space x) (drop (length key) (c # t @ rest)) \<noteq> []"
      then have p: "prefix key (c # t)" using pre by simp
      then have len: "length key \<le> length (c # t)" by (auto dest: prefix_length_le)
      from p False have "drop (length key) (c # t) = []" by simp
      then have "drop (length key) (c # t @ rest) = rest"
        using drop_le_append [OF len, of rest] by simp
      moreover have "takeWhile (\<lambda>x. \<not> js_space x) rest = []"
        using rest by (cases rest) simp_all
      ultimately show False using a by simp
    qed
    have "regex_match_all key (c # t @ rest) = regex_match_all key (t @ rest)"
      by (simp only: regex_match_all.simps(2) [of key c "t @ rest"] if_not_P [OF neg])
    then have "regex_match_all key ((c # t) @ rest) = regex_match_all key (t @ rest)"
      by simp
    moreover have "value_after key (c # t) = value_after key t"
      by (simp only: value_after.simps(2) if_not_P [OF False])
    ultimately show ?thesis using Cons by simp
  qed
qed

lemma match_space:
  assumes key: "\<forall>c\<in>set key. \<not> js_space c" and c: "js_space c"
  shows "regex_match_all key (c # cs) = regex_match_all key cs"
proof (cases key)
  case Nil
  then show ?thesis using c by simp
next
  case (Cons k ks)
  then have "\<not> prefix key (c # cs)" using key c by auto
  then show ?thesis by simp
qed

lemma parse_by_tokens:
  assumes key: "\<forall>c\<in>set key. \<not> js_space c"
  shows "map (\<lambda>m. replace_empty m key) (regex_match_all key s)
           = concat (map (value_after key) (tokens s))"
proof (induction s rule: tokens.induct)
  case 1
  then show ?case by simp
next
  case (2 c cs)
  show ?case
  proof (cases "js_space c")
    case True
    with 2 match_space [OF key True, of cs] show ?thesis by simp
  next
    case False
    let ?t = "takeWhile (\<lambda>x. \<not> js_space x) (c # cs)"
    let ?r = "dropWhile (\<lambda>x. \<not> js_space x) (c # cs)"
    have split: "c # cs = ?t @ ?r" by simp
    have r: "?r = [] \<or> js_space (hd ?r)"
    proof (cases "?r = []")
      case True
      then show ?thesis by (rule disjI1)
    next
      case False
      from hd_dropWhile [OF this] show ?thesis by (simp del: dropWhile.simps)
    qed
    have t: "\<forall>x\<in>set ?t. \<not> js_space x"
      by (auto dest: set_takeWhileD)
    have "map (\<lambda>m. replace_empty m key) (regex_match_all key (?t @ ?r))
           = value_after key ?t @ map (\<lambda>m. replace_empty m key) (regex_match_all key ?r)"
      using key r t by (rule match_token)
    then have "map (\<lambda>m. replace_empty m key) (regex_match_all key (c # cs))
           = value_after key ?t @ map (\<lambda>m. replace_empty m key) (regex_match_all key ?r)"
      by (simp only: takeWhile_dropWhile_id)
    moreover have "tokens (c # cs) = ?t # tokens ?r"
      using False by simp
    ultimately show ?thesis using "2.IH"(2) [OF False] by simp
  qed
qed

lemma key_no_space:
  "\<forall>c\<in>set ''ip4:''. \<not> js_space c" "\<forall>c\<in>set ''include:''. \<not> js_space c"
  by (simp_all add: js_space_def)

subsection \<open>The collector and the matcher\<close>

lemma foldl_collect:
  "(\<And>c acc. c \<in> set cs \<Longrightarrow> collectAllIpRanges c acc = acc @ spec_collect c) \<Longrightarrow>
   foldl (\<lambda>acc child. collectAllIpRanges child acc) a cs = a @ concat (map spec_collect cs)"
  by (induction cs arbitrary: a) simp_all

lemma collect_acc: "collectAllIpRanges t acc = acc @ spec_collect t"
proof (induction t arbitrary: acc)
  case (SpfNode d ips cs e s)
  have "foldl (\<lambda>acc child. collectAllIpRanges child acc) a cs = a @ concat (map spec_collect cs)"
    for a
    by (rule foldl_collect) (rule SpfNode.IH)
  then show ?case by simp
qed

lemma collect_spec: "collect t = spec_collect t"
  by (simp add: collect_def collect_acc)

lemma spec_collect_length:
  "length (spec_collect t) = sum_list (map (\<lambda>n. length (ipRanges n)) (nodes t))"
proof (induction t)
  case (SpfNode d ips cs e s)
  have "length (concat (map spec_collect cs))
        = sum_list (map (\<lambda>n. length (ipRanges n)) (concat (map nodes cs)))"
    using SpfNode.IH by (induction cs) simp_all
  then show ?case by simp
qed

lemma spec_collect_empty:
  assumes "\<forall>n\<in>set (nodes t). ipRanges n = []"
  shows "spec_collect t = []"
proof -
  have "sum_list (map (\<lambda>n. length (ipRanges n)) ns) = 0" if "\<forall>n\<in>set ns. ipRanges n = []"
    for ns :: "SpfNode list"
    using that by (induction ns) simp_all
  from this [OF assms] have "length (spec_collect t) = 0"
    by (simp only: spec_collect_length)
  then show ?thesis by simp
qed




subsection \<open>Runs on the example inputs\<close>

lemmas run_defs =
  Set_has_def Set_add_def new_Set_def resolveTxt_called_def parseSpfRecord_def js_match_def
  or_empty_def js_space_def lookupSpfRecords.simps

lemma world0_simps: "next_ref world0 = 1" "sets world0 r = {}" "queries world0 = []"
  by (simp_all add: world0_def)

lemma world_a_simps: "next_ref world_a = 1" "sets world_a 0 = {''a.com''}"
  by (simp_all add: world_a_def)

lemma cycle_tree:
  "fst (lookupSpfRecords dns_cycle ''a.com'' 0 10 0 world0) =
     SpfNode ''a.com'' []
       [SpfNode ''b.com'' []
          [SpfNode ''a.com'' [] [] (Some ''Circular reference detected'') None]
          None (Some ''v=spf1 include:a.com -all'')]
       None (Some ''v=spf1 include:b.com -all'')"
  by (simp add: world0_def dns_cycle_def run_defs)

lemma dns_tree_simps:
  "dns_tree ''a.com'' =
     Inr [[''google-site-verification=abc''],
          [''v=spf1 ip4:10.0.0.0/8 include:b.com include:missing.com include:c.com -all''],
          [''v=spf1 ip4:9.9.9.9 -all'']]"
  "dns_tree ''missing.com'' = Inl ''ENOTFOUND''"
  "dns_tree ''plain.com'' = Inr [[''google-site-verification=abc'']]"
  by (simp_all add: dns_tree_def)

lemma marker_simps:
  "\<not> str_includes (toString [''google-site-verification=abc'']) ''v=spf1''"
  "str_includes
     (toString [''v=spf1 ip4:10.0.0.0/8 include:b.com include:missing.com include:c.com -all''])
     ''v=spf1''"
  by simp_all

lemma parse_a_com:
  "parseSpfRecord
     (toString [''v=spf1 ip4:10.0.0.0/8 include:b.com include:missing.com include:c.com -all'']) =
   \<lparr> ipv4 = [''10.0.0.0/8''], includes' = [''b.com'', ''missing.com'', ''c.com''] \<rparr>"
  by (simp add: parseSpfRecord_def js_match_def or_empty_def js_space_def)

lemma tree_run:
  "fst (lookupSpfRecords dns_tree ''a.com'' 0 10 0 world0) =
     SpfNode ''a.com'' [''10.0.0.0/8'']
       [SpfNode ''b.com'' []
          [SpfNode ''c.com'' [''192.168.1.0/24''] [] None (Some ''v=spf1 ip4:192.168.1.0/24 -all'')]
          None (Some ''v=spf1 include:c.com -all''),
        SpfNode ''missing.com'' [] [] (Some ''ENOTFOUND'') None,
        SpfNode ''c.com'' [''192.168.1.0/24''] [] None (Some ''v=spf1 ip4:192.168.1.0/24 -all'')]
       None
       (Some ''v=spf1 ip4:10.0.0.0/8 include:b.com include:missing.com include:c.com -all'')"
  by (simp add: world0_def dns_tree_def run_defs)

lemma tree_run_set:
  "sets (snd (lookupSpfRecords dns_tree ''a.com'' 0 10 0 world0)) 0 = {''a.com''}"
  by (simp add: world0_def dns_tree_def run_defs)

lemma tree_run_queries:
  "queries (snd (lookupSpfRecords dns_tree ''a.com'' 0 10 0 world0)) =
     [''a.com'', ''b.com'', ''c.com'', ''missing.com'', ''c.com'']"
  by (simp add: world0_def dns_tree_def run_defs)

section \<open>The claims\<close>



text \<open>
  C2, as the code has it. A call with \<open>depth \<le> maxDepth\<close> and the domain in the visited set
  returns the "Circular reference detected" node without ranges and children and leaves the
  store as it was (no TXT lookup is recorded). In the tree of any call on a set of the
  store, along every path from the root the domains of the nodes above the last one are
  pairwise different and outside the visited set the call started from; the last node may
  repeat one of them, and then it is a cut-off node: "Circular reference detected" or
  "Max depth reached", without ranges, children and record.
\<close>

theorem circular_terminal_paths:
  "(depth \<le> maxDepth \<and> Set_has w v d \<longrightarrow>
      lookupSpfRecords dns d depth maxDepth v w =
        (SpfNode d [] [] (Some ''Circular reference detected'') None, w)) \<and>
   (v < next_ref w \<longrightarrow>
      (\<forall>p \<in> set (paths (fst (lookupSpfRecords dns d depth maxDepth v w))).
         distinct (map domain (butlast p)) \<and>
         set (map domain (butlast p)) \<inter> sets w v = {} \<and>
         (domain (last p) \<in> sets w v \<union> set (map domain (butlast p)) \<longrightarrow> cut_off (last p))))"
proof -
  have cut: "depth \<le> maxDepth \<and> Set_has w v d \<longrightarrow>
      lookupSpfRecords dns d depth maxDepth v w =
        (SpfNode d [] [] (Some ''Circular reference detected'') None, w)"
    by (simp add: lookupSpfRecords.simps)
  have "distinct (map domain (butlast p)) \<and>
         set (map domain (butlast p)) \<inter> sets w v = {} \<and>
         (domain (last p) \<in> sets w v \<union> set (map domain (butlast p)) \<longrightarrow> cut_off (last p))"
    if "v < next_ref w" and "p \<in> set (paths (fst (lookupSpfRecords dns d depth maxDepth v w)))" for p
  proof -
    from that have "p \<in> set (paths (spec_resolve dns d depth maxDepth (sets w v)))"
      by (simp add: lookup_tree)
    then show ?thesis by (rule spec_paths)
  qed
  with cut show ?thesis by blast
qed

theorem circular_terminal_paths_witness:
  "(0::int) \<le> 10 \<and> Set_has world_a 0 ''a.com'' \<and>
   lookupSpfRecords dns_cycle ''a.com'' 0 10 0 world_a = (cycle_cut, world_a) \<and>
   (0::nat) < next_ref world0 \<and>
   [cycle_a, cycle_b, cycle_cut]
     \<in> set (paths (fst (lookupSpfRecords dns_cycle ''a.com'' 0 10 0 world0))) \<and>
   distinct (map domain (butlast [cycle_a, cycle_b, cycle_cut])) \<and>
   set (map domain (butlast [cycle_a, cycle_b, cycle_cut])) \<inter> sets world0 0 = {} \<and>
   domain (last [cycle_a, cycle_b, cycle_cut])
     \<in> sets world0 0 \<union> set (map domain (butlast [cycle_a, cycle_b, cycle_cut])) \<and>
   cut_off (last [cycle_a, cycle_b, cycle_cut])"
proof -
  have g: "(0::int) \<le> 10 \<and> Set_has world_a 0 ''a.com''"
    by (simp add: Set_has_def world_a_simps)
  have h0: "(0::nat) < next_ref world0"
    by (simp add: world0_simps)
  have mem: "[cycle_a, cycle_b, cycle_cut]
     \<in> set (paths (fst (lookupSpfRecords dns_cycle ''a.com'' 0 10 0 world0)))"
    by (simp add: cycle_tree cycle_a_def cycle_b_def cycle_cut_def)
  have rep: "domain (last [cycle_a, cycle_b, cycle_cut])
     \<in> sets world0 0 \<union> set (map domain (butlast [cycle_a, cycle_b, cycle_cut]))"
    by (simp add: cycle_a_def cycle_b_def cycle_cut_def)
  note cut = circular_terminal_paths [where depth = 0 and maxDepth = 10 and w = world_a
               and v = 0 and d = "''a.com''" and dns = dns_cycle, THEN conjunct1]
  note pth = circular_terminal_paths [where depth = 0 and maxDepth = 10 and w = world0
               and v = 0 and d = "''a.com''" and dns = dns_cycle, THEN conjunct2]
  from cut g have c: "lookupSpfRecords dns_cycle ''a.com'' 0 10 0 world_a = (cycle_cut, world_a)"
    by (simp add: cycle_cut_def)
  from pth h0 mem rep
  have "distinct (map domain (butlast [cycle_a, cycle_b, cycle_cut])) \<and>
   set (map domain (butlast [cycle_a, cycle_b, cycle_cut])) \<inter> sets world0 0 = {} \<and>
   cut_off (last [cycle_a, cycle_b, cycle_cut])"
    by blast
  with g c h0 mem rep show ?thesis by blast
qed

text \<open>
  The claim as it is written fails on the cycle of \<open>a.com\<close> and \<open>b.com\<close>: the path to the
  cut-off node has the domains \<open>a.com\<close>, \<open>b.com\<close>, \<open>a.com\<close>.
\<close>

theorem paths_duplicate_counterexample:
  "[''a.com'', ''b.com'', ''a.com'']
     \<in> set (map (map domain) (paths (fst (lookupSpfRecords dns_cycle ''a.com'' 0 10 0 world0)))) \<and>
   \<not> distinct [''a.com'', ''b.com'', ''a.com'']"
  by (simp add: cycle_tree)

text \<open>
  C3. A call with \<open>depth > maxDepth\<close> returns the terminal node with the error
  "Max depth reached", no ranges and no children, and leaves the store as it was: no TXT
  lookup is recorded and no set is changed. Nothing is asked of the visited set, so the
  depth check wins where the domain is in the visited set as well.
\<close>

theorem max_depth_terminal:
  "depth > maxDepth \<Longrightarrow>
     lookupSpfRecords dns d depth maxDepth visited w =
       (SpfNode d [] [] (Some ''Max depth reached'') None, w)"
  by (simp add: lookupSpfRecords.simps)

theorem max_depth_terminal_witness:
  "(11::int) > 10 \<and> Set_has world_a 0 ''a.com'' \<and>
   lookupSpfRecords dns_cycle ''a.com'' 11 10 0 world_a =
     (SpfNode ''a.com'' [] [] (Some ''Max depth reached'') None, world_a)"
  using max_depth_terminal [of 10 11 dns_cycle "''a.com''" 0 world_a]
  by (simp add: Set_has_def world_a_simps)



text \<open>
  C8, as the code has it. \<open>lookupSpfRecords\<close> adds the domain to the very \<open>Set\<close> it was
  passed (\<open>visited.add(domain)\<close>), so the caller's object gains the domain whenever both
  guards pass; every other set that exists before the call keeps its members. The copy is
  made by the caller of each recursive call (\<open>new Set(visited)\<close>): every include target is
  resolved on a new object that holds the visited set plus the current domain, and each
  child is the tree that a first call on such a copy returns, whatever its siblings added
  to their own copies. The tree is the one the specification's copy-on-recurse resolver
  gives. In the witness \<open>c.com\<close> is resolved in full under \<open>b.com\<close> and again as a sibling
  of \<open>b.com\<close>.
\<close>

theorem visited_copy_on_recurse:
  assumes "v < next_ref w"
  shows "fst (lookupSpfRecords dns d depth maxDepth v w) =
           spec_resolve dns d depth maxDepth (sets w v) \<and>
         sets (snd (lookupSpfRecords dns d depth maxDepth v w)) v =
           (if depth > maxDepth \<or> d \<in> sets w v then sets w v else insert d (sets w v)) \<and>
         (\<forall>r<next_ref w. r \<noteq> v \<longrightarrow>
            sets (snd (lookupSpfRecords dns d depth maxDepth v w)) r = sets w r) \<and>
         fst (includes_loop dns incs depth maxDepth v w) =
           map (\<lambda>i. fst (lookupSpfRecords dns i depth maxDepth
                           (fst (new_Set w v)) (snd (new_Set w v)))) incs \<and>
         (\<forall>r<next_ref w. sets (snd (includes_loop dns incs depth maxDepth v w)) r = sets w r)"
proof -
  have one: "fst (lookupSpfRecords dns d depth maxDepth v w) =
           spec_resolve dns d depth maxDepth (sets w v) \<and>
         sets (snd (lookupSpfRecords dns d depth maxDepth v w)) v =
           (if depth > maxDepth \<or> d \<in> sets w v then sets w v else insert d (sets w v)) \<and>
         (\<forall>r<next_ref w. r \<noteq> v \<longrightarrow>
            sets (snd (lookupSpfRecords dns d depth maxDepth v w)) r = sets w r)"
    using lookup_refines(1) [OF assms, of dns d depth maxDepth] assms
    by (auto split: prod.splits)
  have fresh: "fst (new_Set w v) < next_ref (snd (new_Set w v))"
    and same: "sets (snd (new_Set w v)) (fst (new_Set w v)) = sets w v"
    by (simp_all add: new_Set_def)
  have child: "fst (lookupSpfRecords dns i depth maxDepth (fst (new_Set w v)) (snd (new_Set w v)))
               = spec_resolve dns i depth maxDepth (sets w v)" for i
    using lookup_tree [OF fresh, of dns i depth maxDepth] same by simp
  have two: "fst (includes_loop dns incs depth maxDepth v w) =
           map (\<lambda>i. fst (lookupSpfRecords dns i depth maxDepth
                           (fst (new_Set w v)) (snd (new_Set w v)))) incs \<and>
         (\<forall>r<next_ref w. sets (snd (includes_loop dns incs depth maxDepth v w)) r = sets w r)"
    using lookup_refines(3) [OF assms, where dns = dns and incs = incs and depth = depth
            and m = maxDepth]
    by (auto simp: child split: prod.splits)
  from one two show ?thesis by simp
qed

theorem visited_copy_on_recurse_witness:
  "(0::nat) < next_ref world_two \<and> (1::nat) < next_ref world_two \<and> (1::nat) \<noteq> 0 \<and>
   fst (lookupSpfRecords dns_tree ''a.com'' 0 10 0 world_two) =
     SpfNode ''a.com'' [''10.0.0.0/8'']
       [SpfNode ''b.com'' []
          [SpfNode ''c.com'' [''192.168.1.0/24''] [] None (Some ''v=spf1 ip4:192.168.1.0/24 -all'')]
          None (Some ''v=spf1 include:c.com -all''),
        SpfNode ''missing.com'' [] [] (Some ''ENOTFOUND'') None,
        SpfNode ''c.com'' [''192.168.1.0/24''] [] None (Some ''v=spf1 ip4:192.168.1.0/24 -all'')]
       None
       (Some ''v=spf1 ip4:10.0.0.0/8 include:b.com include:missing.com include:c.com -all'') \<and>
   sets (snd (lookupSpfRecords dns_tree ''a.com'' 0 10 0 world_two)) 0 = {''a.com''} \<and>
   sets (snd (lookupSpfRecords dns_tree ''a.com'' 0 10 0 world_two)) 1 = {''x.com''} \<and>
   fst (includes_loop dns_tree [''b.com'', ''c.com''] 1 10 0 world_two) =
     [fst (lookupSpfRecords dns_tree ''b.com'' 1 10
             (fst (new_Set world_two 0)) (snd (new_Set world_two 0))),
      fst (lookupSpfRecords dns_tree ''c.com'' 1 10
             (fst (new_Set world_two 0)) (snd (new_Set world_two 0)))] \<and>
   sets (snd (includes_loop dns_tree [''b.com'', ''c.com''] 1 10 0 world_two)) 0 = {} \<and>
   sets (snd (includes_loop dns_tree [''b.com'', ''c.com''] 1 10 0 world_two)) 1 = {''x.com''}"
proof -
  have h0: "(0::nat) < next_ref world_two" and h1: "(1::nat) < next_ref world_two"
    and s0: "sets world_two 0 = {}" and s1: "sets world_two 1 = {''x.com''}"
    by (simp_all add: world_two_def)
  note t = visited_copy_on_recurse [OF h0, where dns = dns_tree and d = "''a.com''"
             and depth = 0 and maxDepth = 10]
  note l = visited_copy_on_recurse [OF h0, where dns = dns_tree
             and incs = "[''b.com'', ''c.com'']" and depth = 1 and maxDepth = 10]
  have same: "spec_resolve dns_tree ''a.com'' 0 10 (sets world_two 0) =
              fst (lookupSpfRecords dns_tree ''a.com'' 0 10 0 world0)"
    using lookup_tree [of 0 world0 dns_tree "''a.com''" 0 10]
    by (simp add: world0_simps s0)
  from t have a: "fst (lookupSpfRecords dns_tree ''a.com'' 0 10 0 world_two) =
                    fst (lookupSpfRecords dns_tree ''a.com'' 0 10 0 world0)"
    and b: "sets (snd (lookupSpfRecords dns_tree ''a.com'' 0 10 0 world_two)) 0 = {''a.com''}"
    and c: "sets (snd (lookupSpfRecords dns_tree ''a.com'' 0 10 0 world_two)) 1 = {''x.com''}"
    using h1 s0 s1 same by simp_all
  from l have d: "fst (includes_loop dns_tree [''b.com'', ''c.com''] 1 10 0 world_two) =
     [fst (lookupSpfRecords dns_tree ''b.com'' 1 10
             (fst (new_Set world_two 0)) (snd (new_Set world_two 0))),
      fst (lookupSpfRecords dns_tree ''c.com'' 1 10
             (fst (new_Set world_two 0)) (snd (new_Set world_two 0)))]"
    and e: "sets (snd (includes_loop dns_tree [''b.com'', ''c.com''] 1 10 0 world_two)) 0 = {}"
    and f: "sets (snd (includes_loop dns_tree [''b.com'', ''c.com''] 1 10 0 world_two)) 1
              = {''x.com''}"
    using h0 h1 s0 s1 by simp_all
  from h0 h1 a [unfolded tree_run] b c d e f show ?thesis by simp
qed

text \<open>
  The claim as it is written fails: a caller that passes its empty set for \<open>a.com\<close>
  finds \<open>a.com\<close> in it after the call.
\<close>

theorem caller_set_mutated_counterexample:
  "sets world0 0 = {} \<and>
   sets (snd (lookupSpfRecords dns_tree ''a.com'' 0 10 0 world0)) 0 = {''a.com''}"
  by (simp add: tree_run_set world0_simps)

text \<open>
  C9. When both guards pass and the lookup fails, the node carries the failure's message
  as its error and has no ranges, no children and no record. A node built from a record
  has no error of its own and one child per include target, in order, and each child is
  the tree a call for that target alone returns on a set holding the visited set plus the
  current domain: neither a failed sibling nor anything else before it changes or removes
  a child. In the witness the lookup of \<open>missing.com\<close> fails between \<open>b.com\<close> and
  \<open>c.com\<close>.
\<close>

theorem lookup_failure_contained:
  "(\<not> depth > maxDepth \<and> \<not> Set_has w v d \<and> dns d = Inl message \<longrightarrow>
      lookupSpfRecords dns d depth maxDepth v w =
        (SpfNode d [] [] (Some message) None, resolveTxt_called (Set_add w v d) d)) \<and>
   (v < next_ref w \<and> \<not> depth > maxDepth \<and> \<not> Set_has w v d \<and> dns d = Inr records \<and>
    find (\<lambda>r. str_includes (toString r) ''v=spf1'') records = Some r \<and>
    v' < next_ref w'' \<and> sets w'' v' = insert d (sets w v) \<longrightarrow>
      error (fst (lookupSpfRecords dns d depth maxDepth v w)) = None \<and>
      children (fst (lookupSpfRecords dns d depth maxDepth v w)) =
        map (\<lambda>i. fst (lookupSpfRecords dns i (depth + 1) maxDepth v' w''))
          (includes' (parseSpfRecord (toString r))))"
proof -
  have fail: "\<not> depth > maxDepth \<and> \<not> Set_has w v d \<and> dns d = Inl message \<longrightarrow>
      lookupSpfRecords dns d depth maxDepth v w =
        (SpfNode d [] [] (Some message) None, resolveTxt_called (Set_add w v d) d)"
    by (simp add: lookupSpfRecords.simps)
  have par: "error (fst (lookupSpfRecords dns d depth maxDepth v w)) = None \<and>
      children (fst (lookupSpfRecords dns d depth maxDepth v w)) =
        map (\<lambda>i. fst (lookupSpfRecords dns i (depth + 1) maxDepth v' w''))
          (includes' (parseSpfRecord (toString r)))"
    if h: "v < next_ref w" "\<not> depth > maxDepth" "\<not> Set_has w v d" "dns d = Inr records"
      "find (\<lambda>r. str_includes (toString r) ''v=spf1'') records = Some r"
      "v' < next_ref w''" "sets w'' v' = insert d (sets w v)"
  proof -
    have "fst (lookupSpfRecords dns i (depth + 1) maxDepth v' w'')
          = spec_resolve dns i (depth + 1) maxDepth (insert d (sets w v))" for i
      using lookup_tree [OF h(6), of dns i "depth + 1" maxDepth] h(7) by simp
    moreover have "fst (lookupSpfRecords dns d depth maxDepth v w) =
        SpfNode d (ipv4 (parseSpfRecord (toString r)))
          (map (\<lambda>i. spec_resolve dns i (depth + 1) maxDepth (insert d (sets w v)))
             (includes' (parseSpfRecord (toString r))))
          None (Some (toString r))"
      using lookup_tree [OF h(1), of dns d depth maxDepth] h(2-5)
      by (simp add: spec_resolve.simps [of dns d] Set_has_def)
    ultimately show ?thesis by simp
  qed
  from fail par show ?thesis by blast
qed

theorem lookup_failure_contained_witness:
  "\<not> (0::int) > 10 \<and> \<not> Set_has world0 0 ''missing.com'' \<and>
   dns_tree ''missing.com'' = Inl ''ENOTFOUND'' \<and>
   lookupSpfRecords dns_tree ''missing.com'' 0 10 0 world0 =
     (SpfNode ''missing.com'' [] [] (Some ''ENOTFOUND'') None,
      resolveTxt_called (Set_add world0 0 ''missing.com'') ''missing.com'') \<and>
   (0::nat) < next_ref world0 \<and> \<not> Set_has world0 0 ''a.com'' \<and>
   find (\<lambda>r. str_includes (toString r) ''v=spf1'')
     [[''google-site-verification=abc''],
      [''v=spf1 ip4:10.0.0.0/8 include:b.com include:missing.com include:c.com -all''],
      [''v=spf1 ip4:9.9.9.9 -all'']] =
     Some [''v=spf1 ip4:10.0.0.0/8 include:b.com include:missing.com include:c.com -all''] \<and>
   (0::nat) < next_ref world_a \<and> sets world_a 0 = insert ''a.com'' (sets world0 0) \<and>
   error (fst (lookupSpfRecords dns_tree ''a.com'' 0 10 0 world0)) = None \<and>
   children (fst (lookupSpfRecords dns_tree ''a.com'' 0 10 0 world0)) =
     map (\<lambda>i. fst (lookupSpfRecords dns_tree i (0 + 1) 10 0 world_a))
       [''b.com'', ''missing.com'', ''c.com''] \<and>
   map error (children (fst (lookupSpfRecords dns_tree ''a.com'' 0 10 0 world0))) =
     [None, Some ''ENOTFOUND'', None] \<and>
   queries (snd (lookupSpfRecords dns_tree ''a.com'' 0 10 0 world0)) =
     [''a.com'', ''b.com'', ''c.com'', ''missing.com'', ''c.com'']"
proof -
  have g: "\<not> (0::int) > 10" by simp
  have vm: "\<not> Set_has world0 0 ''missing.com''" and va: "\<not> Set_has world0 0 ''a.com''"
    by (simp_all add: Set_has_def world0_simps)
  have h0: "(0::nat) < next_ref world0" and ha: "(0::nat) < next_ref world_a"
    and sa: "sets world_a 0 = insert ''a.com'' (sets world0 0)"
    by (simp_all add: world0_simps world_a_simps)
  have fd: "find (\<lambda>r. str_includes (toString r) ''v=spf1'')
     [[''google-site-verification=abc''],
      [''v=spf1 ip4:10.0.0.0/8 include:b.com include:missing.com include:c.com -all''],
      [''v=spf1 ip4:9.9.9.9 -all'']] =
     Some [''v=spf1 ip4:10.0.0.0/8 include:b.com include:missing.com include:c.com -all'']"
    using marker_simps by simp
  have m: "lookupSpfRecords dns_tree ''missing.com'' 0 10 0 world0 =
     (SpfNode ''missing.com'' [] [] (Some ''ENOTFOUND'') None,
      resolveTxt_called (Set_add world0 0 ''missing.com'') ''missing.com'')"
    using lookup_failure_contained [where depth = 0 and maxDepth = 10 and w = world0 and v = 0
            and d = "''missing.com''" and dns = dns_tree and message = "''ENOTFOUND''"]
          g vm dns_tree_simps(2)
    by blast
  have a: "error (fst (lookupSpfRecords dns_tree ''a.com'' 0 10 0 world0)) = None \<and>
   children (fst (lookupSpfRecords dns_tree ''a.com'' 0 10 0 world0)) =
     map (\<lambda>i. fst (lookupSpfRecords dns_tree i (0 + 1) 10 0 world_a))
       (includes' (parseSpfRecord (toString
          [''v=spf1 ip4:10.0.0.0/8 include:b.com include:missing.com include:c.com -all''])))"
    using lookup_failure_contained [where depth = 0 and maxDepth = 10 and w = world0 and v = 0
            and d = "''a.com''" and dns = dns_tree and v' = 0 and w'' = world_a]
          g va h0 ha sa fd dns_tree_simps(1)
    by blast
  have e: "map error (children (fst (lookupSpfRecords dns_tree ''a.com'' 0 10 0 world0))) =
     [None, Some ''ENOTFOUND'', None]"
    by (simp add: tree_run)
  from a have a': "error (fst (lookupSpfRecords dns_tree ''a.com'' 0 10 0 world0)) = None \<and>
   children (fst (lookupSpfRecords dns_tree ''a.com'' 0 10 0 world0)) =
     map (\<lambda>i. fst (lookupSpfRecords dns_tree i (0 + 1) 10 0 world_a))
       [''b.com'', ''missing.com'', ''c.com'']"
    unfolding parse_a_com by simp
  from g vm dns_tree_simps(2) m h0 va fd ha sa a' e tree_run_queries show ?thesis by blast
qed

text \<open>
  C10. In every node of every tree that \<open>lookupSpfRecords\<close> returns, an error excludes
  ranges, children and a record.
\<close>

theorem error_exclusive:
  "\<forall>n\<in>set (nodes (fst (lookupSpfRecords dns d depth maxDepth v w))).
     error n \<noteq> None \<longrightarrow> ipRanges n = [] \<and> children n = [] \<and> spfRecord n = None"
  using nodes_error_free_of_record(1) [of dns d depth maxDepth v w]
  by (simp add: error_excludes_record_def)

theorem error_exclusive_witness:
  "SpfNode ''missing.com'' [] [] (Some ''ENOTFOUND'') None
     \<in> set (nodes (fst (lookupSpfRecords dns_tree ''a.com'' 0 10 0 world0))) \<and>
   error (SpfNode ''missing.com'' [] [] (Some ''ENOTFOUND'') None) \<noteq> None \<and>
   ipRanges (SpfNode ''missing.com'' [] [] (Some ''ENOTFOUND'') None) = [] \<and>
   children (SpfNode ''missing.com'' [] [] (Some ''ENOTFOUND'') None) = [] \<and>
   spfRecord (SpfNode ''missing.com'' [] [] (Some ''ENOTFOUND'') None) = None"
proof -
  have mem: "SpfNode ''missing.com'' [] [] (Some ''ENOTFOUND'') None
     \<in> set (nodes (fst (lookupSpfRecords dns_tree ''a.com'' 0 10 0 world0)))"
    by (simp add: tree_run)
  have err: "error (SpfNode ''missing.com'' [] [] (Some ''ENOTFOUND'') None) \<noteq> None"
    by simp
  from error_exclusive [where dns = dns_tree and d = "''a.com''" and depth = 0 and maxDepth = 10
         and v = 0 and w = world0] mem err
  show ?thesis by blast
qed

text \<open>
  C5, as the code has it. The parser has no failure mode and does not look at the values.
  For each token of the string (a maximal run of characters that are not white space), in
  order, that holds \<open>ip4:\<close> with at least one character behind it, it returns the rest of
  the token behind the first such place, wherever in the token that place is; likewise
  for \<open>include:\<close>. For a token of the form \<open>ip4:<value>\<close> or \<open>include:<value>\<close> that is the
  value. The specification's example parses as it says.
\<close>

theorem parser_token_values:
  "ipv4 (parseSpfRecord s) = concat (map (value_after ''ip4:'') (tokens s)) \<and>
   includes' (parseSpfRecord s) = concat (map (value_after ''include:'') (tokens s)) \<and>
   (prefix key t \<and> drop (length key) t \<noteq> [] \<longrightarrow> value_after key t = [drop (length key) t]) \<and>
   parseSpfRecord ''v=spf1 ip4:10.0.0.0/8 include:foo.com include:bar.com -all'' =
     \<lparr> ipv4 = [''10.0.0.0/8''], includes' = [''foo.com'', ''bar.com''] \<rparr>"
proof -
  have a: "ipv4 (parseSpfRecord s) = concat (map (value_after ''ip4:'') (tokens s))"
    using parse_by_tokens [OF key_no_space(1), of s]
    by (simp add: parseSpfRecord_def or_empty_match)
  have b: "includes' (parseSpfRecord s) = concat (map (value_after ''include:'') (tokens s))"
    using parse_by_tokens [OF key_no_space(2), of s]
    by (simp add: parseSpfRecord_def or_empty_match)
  have c: "prefix key t \<and> drop (length key) t \<noteq> [] \<longrightarrow>
           value_after key t = [drop (length key) t]"
    by (cases t) simp_all
  have d: "parseSpfRecord ''v=spf1 ip4:10.0.0.0/8 include:foo.com include:bar.com -all'' =
     \<lparr> ipv4 = [''10.0.0.0/8''], includes' = [''foo.com'', ''bar.com''] \<rparr>"
    by (simp add: parseSpfRecord_def js_match_def or_empty_def js_space_def)
  from a b c d show ?thesis by blast
qed

theorem parser_token_values_witness:
  "prefix ''ip4:'' ''ip4:10.0.0.0/8'' \<and> drop (length ''ip4:'') ''ip4:10.0.0.0/8'' \<noteq> [] \<and>
   value_after ''ip4:'' ''ip4:10.0.0.0/8'' = [''10.0.0.0/8''] \<and>
   ipv4 (parseSpfRecord ''v=spf1 +ip4:1.2.3.4 ip4: -all'') =
     concat (map (value_after ''ip4:'') (tokens ''v=spf1 +ip4:1.2.3.4 ip4: -all''))"
  using parser_token_values [where key = "''ip4:''" and t = "''ip4:10.0.0.0/8''"
          and s = "''v=spf1 +ip4:1.2.3.4 ip4: -all''"]
  by simp

text \<open>
  The claim as it is written fails on a record whose only \<open>ip4:\<close> stands inside the value
  of an include: no token has the form \<open>ip4:<value>\<close>, and the parser returns an ip4
  value all the same.
\<close>

theorem parser_inside_token_counterexample:
  "spec_token_values ''ip4:'' ''v=spf1 include:ip4:1.2.3.4'' = [] \<and>
   ipv4 (parseSpfRecord ''v=spf1 include:ip4:1.2.3.4'') = [''1.2.3.4'']"
  by (simp add: spec_token_values_def parseSpfRecord_def js_match_def or_empty_def js_space_def)

text \<open>
  C6. \<open>collectAllIpRanges\<close> called on a tree alone is the depth-first flattening of the
  specification: the node's own entries, one per range under the node's domain, then the
  entries of each child in the stored order. It is a total function of the tree; an array
  passed as second argument is only extended at its end. The result has as many entries
  as the nodes have ranges, so a tree without ranges gives the empty list.
\<close>

theorem collect_preorder:
  "collect t = spec_collect t \<and>
   collect (SpfNode d ips cs e s) =
     map (\<lambda>r. \<lparr> entry_range = r, entry_domain = d \<rparr>) ips @ concat (map collect cs) \<and>
   collectAllIpRanges t acc = acc @ collect t \<and>
   length (collect t) = sum_list (map (\<lambda>n. length (ipRanges n)) (nodes t)) \<and>
   ((\<forall>n\<in>set (nodes t). ipRanges n = []) \<longrightarrow> collect t = [])"
proof -
  have eq: "collect = spec_collect"
    by (rule ext) (rule collect_spec)
  show ?thesis
    unfolding eq using spec_collect_empty [of t]
    by (simp add: collect_acc spec_collect_length)
qed


theorem collect_preorder_witness:
  "map ipRanges (nodes cycle_a) = [[], [], []] \<and> collect cycle_a = [] \<and>
   collect two_level =
     [\<lparr> entry_range = ''10.0.0.0/8'', entry_domain = ''root.com'' \<rparr>,
      \<lparr> entry_range = ''192.168.1.0/24'', entry_domain = ''include.com'' \<rparr>]"
proof -
  have n: "map ipRanges (nodes cycle_a) = [[], [], []]"
    by (simp add: cycle_a_def cycle_b_def cycle_cut_def)
  then have "\<forall>n\<in>set (nodes cycle_a). ipRanges n = []"
    by (simp add: cycle_a_def cycle_b_def cycle_cut_def)
  with collect_preorder [where t = cycle_a] have e: "collect cycle_a = []"
    by blast
  have t: "collect two_level =
     [\<lparr> entry_range = ''10.0.0.0/8'', entry_domain = ''root.com'' \<rparr>,
      \<lparr> entry_range = ''192.168.1.0/24'', entry_domain = ''include.com'' \<rparr>]"
    by (simp add: two_level_def collect_def)
  from n e t show ?thesis by blast
qed



end
